theory Spec2Isabelle
  imports Main "HOL-Library.Extended_Nat" "HOL-Library.Multiset"
    "HOL-Library.Char_ord" "HOL-Library.List_Lexorder"
begin

section \<open>The catalog documents\<close>

text \<open>
  Modelled from the spec: the schema \<^verbatim>\<open>models/Show\<close> is imported by the controller
  and is not part of the sources at hand. The record below has the ten fields that
  \<^verbatim>\<open>ShowController._projections\<close> names, the field \<^verbatim>\<open>latest_episode\<close> that
  \<^verbatim>\<open>getShow\<close> and the \<^verbatim>\<open>updated\<close> ordering name, and the per-episode variant
  mapping of the data model. The last two are optional: a projection removes a field
  from a document, and a removed field is \<open>None\<close>.
\<close>

record rating =
  votes :: nat
  percentage :: nat
  watching :: nat

record torrent =
  link :: string
  seeds :: nat
  peers :: nat
  display_name :: string

record "show" =
  show_id :: string
  imdb_id :: string
  tvdb_id :: "string option"
  title :: string
  year :: int
  slug :: string
  genres :: "string list"
  images :: "string list"
  rating :: rating
  num_seasons :: int
  latest_episode :: "int option"
  episodes :: "((nat \<times> nat) \<times> torrent list) list option"

section \<open>JavaScript numbers and strings\<close>

text \<open>
  A JavaScript number is modelled as an unbounded integer or \<open>NaN\<close>. The controller
  only subtracts one, multiplies by the page size and hands the number to the store, so
  this is exact for integers below \<open>2\<^sup>5\<^sup>3\<close>.
\<close>

datatype jsnum = Num int | NaN

fun js_sub :: "jsnum \<Rightarrow> jsnum \<Rightarrow> jsnum" where
  "js_sub (Num a) (Num b) = Num (a - b)"
| "js_sub _ _ = NaN"

fun js_mul :: "jsnum \<Rightarrow> jsnum \<Rightarrow> jsnum" where
  "js_mul (Num a) (Num b) = Num (a * b)"
| "js_mul _ _ = NaN"

subsection \<open>Characters\<close>

text \<open>
  Strings are lists of 8-bit characters, read as the code points 0 to 255. The classes
  are those of the regular expressions in the controller: \<^verbatim>\<open>[a-zA-Z0-9]\<close>,
  \<^verbatim>\<open>\w\<close>, \<^verbatim>\<open>\s\<close>, and the digits of a numeral.
\<close>

definition code :: "char \<Rightarrow> nat" where
  "code c = of_char c"

definition is_digit :: "char \<Rightarrow> bool" where
  "is_digit c = (48 \<le> code c \<and> code c \<le> 57)"

definition is_alnum :: "char \<Rightarrow> bool" where
  "is_alnum c = ((48 \<le> code c \<and> code c \<le> 57) \<or> (65 \<le> code c \<and> code c \<le> 90)
                 \<or> (97 \<le> code c \<and> code c \<le> 122))"

definition is_word :: "char \<Rightarrow> bool" where
  "is_word c = (is_alnum c \<or> code c = 95)"

definition is_space :: "char \<Rightarrow> bool" where
  "is_space c = ((9 \<le> code c \<and> code c \<le> 13) \<or> code c = 32 \<or> code c = 160)"

definition newline :: char where
  "newline = CHR 0x0A"

text \<open>\<^verbatim>\<open>toLowerCase\<close> on one character: the letters A to Z, and those of Latin-1.\<close>

definition to_lower :: "char \<Rightarrow> char" where
  "to_lower c =
     (if (65 \<le> code c \<and> code c \<le> 90) \<or> (192 \<le> code c \<and> code c \<le> 222 \<and> code c \<noteq> 215)
      then char_of (code c + 32) else c)"

definition toLowerCase :: "string \<Rightarrow> string" where
  "toLowerCase s = map to_lower s"

subsection \<open>Numerals\<close>

definition digit_val :: "char \<Rightarrow> int" where
  "digit_val c = int (code c) - 48"

definition digits_val :: "string \<Rightarrow> int" where
  "digits_val ds = foldl (\<lambda>a c. 10 * a + digit_val c) 0 ds"

text \<open>
  \<^verbatim>\<open>parseInt(s, 10)\<close>: leading blanks are skipped, a sign is read, then the longest
  run of digits; no digit gives \<open>NaN\<close>.
\<close>

definition parseInt :: "string \<Rightarrow> jsnum" where
  "parseInt s =
     (let t = dropWhile is_space s;
          (sgn, u) = (case t of c # r \<Rightarrow> if c = CHR ''-'' then (-1, r)
                                         else if c = CHR ''+'' then (1, r) else (1, t)
                      | [] \<Rightarrow> (1, t));
          ds = takeWhile is_digit u
      in if ds = [] then NaN else Num (sgn * digits_val ds))"

text \<open>
  The conversion of a string to a number that \<^verbatim>\<open>req.params.page - 1\<close> performs.
  Blanks around the text are dropped, the empty text is zero and a signed run of digits
  is its value. Numerals with a fraction, an exponent or a radix prefix and the word
  \<^verbatim>\<open>Infinity\<close> are outside this development: they are mapped to \<open>NaN\<close> here.
  Where a statement below depends on the number of the page, the page is written as a
  run of digits.
\<close>

definition trim :: "string \<Rightarrow> string" where
  "trim s = rev (dropWhile is_space (rev (dropWhile is_space s)))"

definition unsigned_number :: "string \<Rightarrow> jsnum" where
  "unsigned_number u = (if u \<noteq> [] \<and> list_all is_digit u then Num (digits_val u) else NaN)"

definition to_number :: "string \<Rightarrow> jsnum" where
  "to_number s =
     (case trim s of [] \<Rightarrow> Num 0
      | c # r \<Rightarrow> if c = CHR ''-'' then js_mul (Num (-1)) (unsigned_number r)
                 else if c = CHR ''+'' then unsigned_number r
                 else unsigned_number (c # r))"

text \<open>The decimal text of a natural number, as a template literal prints it.\<close>

definition digit_char :: "nat \<Rightarrow> char" where
  "digit_char d = char_of (48 + d)"

fun show_nat :: "nat \<Rightarrow> string" where
  "show_nat n = (if n < 10 then [digit_char n] else show_nat (n div 10) @ [digit_char (n mod 10)])"

declare show_nat.simps [simp del]

subsection \<open>Splitting and sanitizing\<close>

text \<open>\<^verbatim>\<open>s.split(sep)\<close> for a separator of one character.\<close>

fun split :: "char \<Rightarrow> string \<Rightarrow> string list" where
  "split sep [] = [[]]"
| "split sep (c # cs) =
     (if c = sep then [] # split sep cs
      else (case split sep cs of w # ws \<Rightarrow> (c # w) # ws | [] \<Rightarrow> [[c]]))"

text \<open>\<^verbatim>\<open>w.replace(/[^a-zA-Z0-9]/g, '')\<close>\<close>

definition strip_non_alnum :: "string \<Rightarrow> string" where
  "strip_non_alnum w = filter is_alnum w"

section \<open>Regular expressions\<close>

text \<open>
  The fragment the controller writes: literal characters, the class \<^verbatim>\<open>[-\s]\<close>,
  \<^verbatim>\<open>.*\<close>, \<^verbatim>\<open>\b\<close>, \<^verbatim>\<open>^\<close> and a lookahead \<^verbatim>\<open>(?=...)\<close> over these, with
  the flag \<^verbatim>\<open>i\<close>. The meaning of a pattern at a position of the subject is the list
  of positions where a match that starts there can end. The dot matches every
  character but the line feed.
\<close>

datatype cls = Single char | Space

datatype atom = Chr char | Class "cls list" | Dot_star | Word_b | Bol

datatype item = Atom atom | Look "atom list"

record regex =
  items :: "item list"
  ignore_case :: bool

definition char_eq :: "bool \<Rightarrow> char \<Rightarrow> char \<Rightarrow> bool" where
  "char_eq ic a b = (if ic then to_lower a = to_lower b else a = b)"

fun in_cls :: "bool \<Rightarrow> cls \<Rightarrow> char \<Rightarrow> bool" where
  "in_cls ic (Single c) d = char_eq ic d c"
| "in_cls ic Space d = is_space d"

definition word_before :: "string \<Rightarrow> nat \<Rightarrow> bool" where
  "word_before s i = (0 < i \<and> i \<le> length s \<and> is_word (s ! (i - 1)))"

definition word_at :: "string \<Rightarrow> nat \<Rightarrow> bool" where
  "word_at s i = (i < length s \<and> is_word (s ! i))"

definition word_boundary :: "string \<Rightarrow> nat \<Rightarrow> bool" where
  "word_boundary s i = (word_before s i \<noteq> word_at s i)"

fun atom_ends :: "bool \<Rightarrow> atom \<Rightarrow> string \<Rightarrow> nat \<Rightarrow> nat list" where
  "atom_ends ic (Chr c) s i = (if i < length s \<and> char_eq ic (s ! i) c then [Suc i] else [])"
| "atom_ends ic (Class cs) s i =
     (if i < length s \<and> list_ex (\<lambda>m. in_cls ic m (s ! i)) cs then [Suc i] else [])"
| "atom_ends ic Dot_star s i =
     [i..<Suc (i + length (takeWhile (\<lambda>c. c \<noteq> newline) (drop i s)))]"
| "atom_ends ic Word_b s i = (if word_boundary s i then [i] else [])"
| "atom_ends ic Bol s i = (if i = 0 then [i] else [])"

fun atoms_ends :: "bool \<Rightarrow> atom list \<Rightarrow> string \<Rightarrow> nat \<Rightarrow> nat list" where
  "atoms_ends ic [] s i = [i]"
| "atoms_ends ic (a # as) s i = concat (map (atoms_ends ic as s) (atom_ends ic a s i))"

fun item_ends :: "bool \<Rightarrow> item \<Rightarrow> string \<Rightarrow> nat \<Rightarrow> nat list" where
  "item_ends ic (Atom a) s i = atom_ends ic a s i"
| "item_ends ic (Look as) s i = (if atoms_ends ic as s i = [] then [] else [i])"

fun items_ends :: "bool \<Rightarrow> item list \<Rightarrow> string \<Rightarrow> nat \<Rightarrow> nat list" where
  "items_ends ic [] s i = [i]"
| "items_ends ic (x # xs) s i = concat (map (items_ends ic xs s) (item_ends ic x s i))"

text \<open>
  \<^verbatim>\<open>s.match(r)\<close> used as a condition, and the store's \<^verbatim>\<open>$regex\<close>: the pattern
  matches somewhere, the search starting at each position in turn.
\<close>

definition regex_test :: "regex \<Rightarrow> string \<Rightarrow> bool" where
  "regex_test r s =
     list_ex (\<lambda>i. items_ends (ignore_case r) (items r) s i \<noteq> []) [0..<Suc (length s)]"

definition literal :: "string \<Rightarrow> item list" where
  "literal w = map (\<lambda>c. Atom (Chr c)) w"

text \<open>\<^verbatim>\<open>/all/i\<close>, \<^verbatim>\<open>/name/i\<close> and the other literal patterns.\<close>

definition word_rx :: "string \<Rightarrow> regex" where
  "word_rx w = \<lparr>items = literal w, ignore_case = True\<rparr>"

text \<open>\<^verbatim>\<open>/science[-\s]fiction/i\<close> and \<^verbatim>\<open>/sci[-\s]fi/i\<close>\<close>

definition joined_rx :: "string \<Rightarrow> string \<Rightarrow> regex" where
  "joined_rx u v =
     \<lparr>items = literal u @ [Atom (Class [Single CHR ''-'', Space])] @ literal v,
      ignore_case = True\<rparr>"

section \<open>The store\<close>

datatype error = StoreUnreachable | InvalidStage

datatype store = Unreachable | Collection "show list"

text \<open>
  What a handler does with the response object: \<^verbatim>\<open>res.json(v)\<close>, \<^verbatim>\<open>next(err)\<close>,
  or a \<^verbatim>\<open>TypeError\<close> thrown inside the handler's own callback, which leaves the
  returned promise rejected with neither of the two called.
\<close>

datatype 'a response = Json 'a | Next error | TypeError

text \<open>\<^verbatim>\<open>promise.then(f).catch(g)\<close> on a settled store result.\<close>

definition then_catch ::
  "error + 'a \<Rightarrow> ('a \<Rightarrow> 'b response) \<Rightarrow> (error \<Rightarrow> 'b response) \<Rightarrow> 'b response" where
  "then_catch r f g = (case r of Inr v \<Rightarrow> f v | Inl e \<Rightarrow> g e)"

subsection \<open>Queries\<close>

text \<open>
  The query object of the controller has at most three keys: \<^verbatim>\<open>num_seasons: {$gt: n}\<close>,
  \<^verbatim>\<open>title: {$regex, $options}\<close> and \<^verbatim>\<open>genres: g\<close>. A key that is not set is
  \<open>None\<close>.
\<close>

record query =
  q_num_seasons_gt :: "int option"
  q_title :: "regex option"
  q_genres :: "string option"

definition matches :: "query \<Rightarrow> show \<Rightarrow> bool" where
  "matches q s =
     ((case q_num_seasons_gt q of None \<Rightarrow> True | Some n \<Rightarrow> n < num_seasons s) \<and>
      (case q_title q of None \<Rightarrow> True | Some r \<Rightarrow> regex_test r (title s)) \<and>
      (case q_genres q of None \<Rightarrow> True | Some g \<Rightarrow> g \<in> set (genres s)))"

subsection \<open>Ordering\<close>

text \<open>
  The fields a \<^verbatim>\<open>$sort\<close> stage of the controller names, and the value a document has
  there. The store orders a missing value before every number and every number before
  every string; strings are compared character by character.
\<close>

datatype field = Title | Year | Rating_votes | Rating_percentage | Rating_watching
  | Latest_episode

datatype skey = KNull | KNum int | KStr string

fun sort_value :: "field \<Rightarrow> show \<Rightarrow> skey" where
  "sort_value Title s = KStr (title s)"
| "sort_value Year s = KNum (year s)"
| "sort_value Rating_votes s = KNum (int (votes (rating s)))"
| "sort_value Rating_percentage s = KNum (int (percentage (rating s)))"
| "sort_value Rating_watching s = KNum (int (watching (rating s)))"
| "sort_value Latest_episode s = (case latest_episode s of None \<Rightarrow> KNull | Some t \<Rightarrow> KNum t)"

fun skey_less :: "skey \<Rightarrow> skey \<Rightarrow> bool" where
  "skey_less KNull k = (k \<noteq> KNull)"
| "skey_less (KNum a) KNull = False"
| "skey_less (KNum a) (KNum b) = (a < b)"
| "skey_less (KNum a) (KStr y) = True"
| "skey_less (KStr x) (KStr y) = (x < y)"
| "skey_less (KStr x) k = False"

text \<open>
  \<open>doc_less spec a b\<close>: the specification puts \<open>a\<close> strictly before \<open>b\<close>. The
  keys are compared in the order they are written, each in its own direction.
\<close>

fun doc_less :: "(field \<times> jsnum) list \<Rightarrow> show \<Rightarrow> show \<Rightarrow> bool" where
  "doc_less [] a b = False"
| "doc_less ((f, d) # fs) a b =
     (if sort_value f a = sort_value f b then doc_less fs a b
      else if d = Num 1 then skey_less (sort_value f a) (sort_value f b)
      else skey_less (sort_value f b) (sort_value f a))"

definition doc_le :: "(field \<times> jsnum) list \<Rightarrow> show \<Rightarrow> show \<Rightarrow> bool" where
  "doc_le spec a b = (\<not> doc_less spec b a)"

text \<open>A stable sort by insertion: documents the specification ties keep their order.\<close>

fun insort_by :: "('a \<Rightarrow> 'a \<Rightarrow> bool) \<Rightarrow> 'a \<Rightarrow> 'a list \<Rightarrow> 'a list" where
  "insort_by le x [] = [x]"
| "insort_by le x (y # ys) = (if le x y then x # y # ys else y # insort_by le x ys)"

definition sort_by :: "('a \<Rightarrow> 'a \<Rightarrow> bool) \<Rightarrow> 'a list \<Rightarrow> 'a list" where
  "sort_by le xs = foldr (insort_by le) xs []"

definition valid_direction :: "jsnum \<Rightarrow> bool" where
  "valid_direction d = (d = Num 1 \<or> d = Num (- 1))"

subsection \<open>Pipelines\<close>

text \<open>
  The stages the controller uses. \<^verbatim>\<open>$sample: {size: 1}\<close> draws one document at
  random; the number the store draws is the argument of \<open>Sample_one\<close>. A stage the
  store rejects fails the whole pipeline: a sort direction other than 1 and -1, a skip
  that is not a non-negative integer, a limit that is not positive.
\<close>

datatype stage = Match query | Project "show \<Rightarrow> show" | Sort "(field \<times> jsnum) list"
  | Skip jsnum | Limit nat | Sample_one nat

fun run_stage :: "stage \<Rightarrow> show list \<Rightarrow> error + show list" where
  "run_stage (Match q) xs = Inr (filter (matches q) xs)"
| "run_stage (Project p) xs = Inr (map p xs)"
| "run_stage (Sort spec) xs =
     (if list_all (\<lambda>(f, d). valid_direction d) spec then Inr (sort_by (doc_le spec) xs)
      else Inl InvalidStage)"
| "run_stage (Skip (Num n)) xs = (if 0 \<le> n then Inr (drop (nat n) xs) else Inl InvalidStage)"
| "run_stage (Skip NaN) xs = Inl InvalidStage"
| "run_stage (Limit n) xs = (if 0 < n then Inr (take n xs) else Inl InvalidStage)"
| "run_stage (Sample_one r) xs = Inr (if xs = [] then [] else [xs ! (r mod length xs)])"

fun run_pipeline :: "stage list \<Rightarrow> show list \<Rightarrow> error + show list" where
  "run_pipeline [] xs = Inr xs"
| "run_pipeline (st # sts) xs =
     (case run_stage st xs of Inl e \<Rightarrow> Inl e | Inr ys \<Rightarrow> run_pipeline sts ys)"

text \<open>\<^verbatim>\<open>Show.aggregate(stages).exec()\<close>, \<^verbatim>\<open>Show.count(q).exec()\<close> and
  \<^verbatim>\<open>Show.findOne({_id: i}, projection).exec()\<close>, settled.\<close>

definition aggregate :: "store \<Rightarrow> stage list \<Rightarrow> error + show list" where
  "aggregate st stages =
     (case st of Unreachable \<Rightarrow> Inl StoreUnreachable | Collection xs \<Rightarrow> run_pipeline stages xs)"

definition count_docs :: "store \<Rightarrow> query \<Rightarrow> error + nat" where
  "count_docs st q =
     (case st of Unreachable \<Rightarrow> Inl StoreUnreachable
      | Collection xs \<Rightarrow> Inr (length (filter (matches q) xs)))"

definition findOne :: "store \<Rightarrow> string \<Rightarrow> (show \<Rightarrow> show) \<Rightarrow> error + show option" where
  "findOne st i p =
     (case st of Unreachable \<Rightarrow> Inl StoreUnreachable
      | Collection xs \<Rightarrow> Inr (map_option p (find (\<lambda>s. show_id s = i) xs)))"

section \<open>The controller\<close>

text \<open>\<^verbatim>\<open>ShowController.query\<close>\<close>

definition query :: query where
  "query = \<lparr>q_num_seasons_gt = Some 0, q_title = None, q_genres = None\<rparr>"

text \<open>\<^verbatim>\<open>ShowController._projections\<close>: the ten fields kept, every other field removed.\<close>

definition projections :: "show \<Rightarrow> show" where
  "projections s =
     \<lparr>show_id = show_id s, imdb_id = imdb_id s, tvdb_id = tvdb_id s, title = title s,
      year = year s, slug = slug s, genres = genres s, images = images s,
      rating = rating s, num_seasons = num_seasons s,
      latest_episode = None, episodes = None\<rparr>"

text \<open>The projection \<^verbatim>\<open>{latest_episode: 0}\<close> of \<^verbatim>\<open>getShow\<close>.\<close>

definition without_latest_episode :: "show \<Rightarrow> show" where
  "without_latest_episode s = s\<lparr>latest_episode := None\<rparr>"

subsection \<open>getShows\<close>

text \<open>
  \<^verbatim>\<open>Math.ceil(count / pageSize)\<close> for a count and a page size that are natural
  numbers: a division by zero is \<open>Infinity\<close>, or \<open>NaN\<close> (here \<open>None\<close>) for
  \<^verbatim>\<open>0 / 0\<close>.
\<close>

definition pages_of :: "nat \<Rightarrow> nat \<Rightarrow> enat option" where
  "pages_of c pageSize =
     (if pageSize = 0 then (if c = 0 then None else Some \<infinity>)
      else Some (enat (nat \<lceil>real c / real pageSize\<rceil>)))"

text \<open>
  The loop \<^verbatim>\<open>for (let i = 1; i < pages + 1; i++) docs.push(`shows/${i}`)\<close>. It does
  not end when \<open>pages\<close> is infinite, and then the function has no value.
\<close>

partial_function (option) push_pages :: "enat \<Rightarrow> nat \<Rightarrow> string list \<Rightarrow> string list option" where
  "push_pages pages i docs =
     (if enat i < pages + 1 then push_pages pages (Suc i) (docs @ [''shows/'' @ show_nat i])
      else Some docs)"

declare push_pages.simps [code]

definition getShows :: "nat \<Rightarrow> store \<Rightarrow> string list response option" where
  "getShows pageSize st =
     (case count_docs st query of
        Inl err \<Rightarrow> Some (Next err)
      | Inr c \<Rightarrow>
          (case pages_of c pageSize of
             None \<Rightarrow> Some (Json [])
           | Some pages \<Rightarrow> map_option Json (push_pages pages 1 [])))"

subsection \<open>getPage\<close>

record request =
  req_page :: string
  req_order :: "string option"
  req_keywords :: "string option"
  req_sort :: "string option"
  req_genre :: "string option"

text \<open>\<^verbatim>\<open>data.order ? parseInt(data.order, 10) : -1\<close>\<close>

definition order_of :: "string option \<Rightarrow> jsnum" where
  "order_of p = (case p of Some s \<Rightarrow> if s \<noteq> [] then parseInt s else Num (- 1) | None \<Rightarrow> Num (- 1))"

text \<open>
  The pattern of lines 91 to 99: \<^verbatim>\<open>^\<close>, then for each word
  \<^verbatim>\<open>(?=.*\bword\b)\<close> with the word stripped and lower-cased, then \<^verbatim>\<open>.*\<close>.
  \<^verbatim>\<open>RegExp.escape\<close> is not part of the sources; on a word of letters and digits it
  has nothing to escape, so the word enters the pattern as literal characters.
\<close>

definition keyword_tokens :: "string \<Rightarrow> string list" where
  "keyword_tokens ks = map (\<lambda>w. toLowerCase (strip_non_alnum w)) (split CHR '' '' ks)"

definition lookahead :: "string \<Rightarrow> item" where
  "lookahead w = Look ([Dot_star, Word_b] @ map Chr w @ [Word_b])"

definition keyword_regex :: "string \<Rightarrow> regex" where
  "keyword_regex ks =
     \<lparr>items = [Atom Bol] @ map lookahead (keyword_tokens ks) @ [Atom Dot_star],
      ignore_case = True\<rparr>"

text \<open>
  A request parameter is a string or absent. As a condition, an absent parameter and
  the empty string are false and every other string is true.
\<close>

definition title_of :: "string option \<Rightarrow> regex option" where
  "title_of p =
     (case p of Some ks \<Rightarrow> if ks \<noteq> [] then Some (keyword_regex ks) else None | None \<Rightarrow> None)"

text \<open>Lines 83 to 121: the default ordering, and the five patterns tried in turn.\<close>

definition sort_of :: "jsnum \<Rightarrow> string option \<Rightarrow> (field \<times> jsnum) list" where
  "sort_of ord p =
     (let sort0 = [(Rating_votes, ord), (Rating_percentage, ord), (Rating_watching, ord)]
      in case p of
           Some s \<Rightarrow>
             if s \<noteq> [] then
               (let sort1 = (if regex_test (word_rx ''name'') s then [(Title, ord)] else sort0);
                    sort2 = (if regex_test (word_rx ''rating'') s
                             then [(Rating_percentage, ord), (Rating_votes, ord)] else sort1);
                    sort3 = (if regex_test (word_rx ''trending'') s
                             then [(Rating_watching, ord)] else sort2);
                    sort4 = (if regex_test (word_rx ''updated'') s
                             then [(Latest_episode, ord)] else sort3)
                in if regex_test (word_rx ''year'') s then [(Year, ord)] else sort4)
             else sort0
         | None \<Rightarrow> sort0)"

text \<open>Lines 123 to 130.\<close>

definition genres_of :: "string option \<Rightarrow> string option" where
  "genres_of p =
     (case p of
        Some genre \<Rightarrow>
          if genre \<noteq> [] \<and> \<not> regex_test (word_rx ''all'') genre then
            (let genre' = (if regex_test (joined_rx ''science'' ''fiction'') genre
                              \<or> regex_test (joined_rx ''sci'' ''fi'') genre
                           then ''science-fiction'' else genre)
             in Some (toLowerCase genre'))
          else None
      | None \<Rightarrow> None)"

text \<open>
  The response object has no method \<^verbatim>\<open>jfson\<close>: the call in the handler of line 144
  throws a \<^verbatim>\<open>TypeError\<close>.
\<close>

definition jfson :: "error \<Rightarrow> 'a response" where
  "jfson err = TypeError"

text \<open>Line 64: \<^verbatim>\<open>req.params.page.match(/all/i)\<close>\<close>

definition full_listing :: "string \<Rightarrow> bool" where
  "full_listing page = regex_test (word_rx ''all'') page"

text \<open>Lines 78, 98 and 129: the standing query, with the title and genre keys set.\<close>

definition query_of :: "request \<Rightarrow> query" where
  "query_of req =
     query\<lparr>q_title := title_of (req_keywords req), q_genres := genres_of (req_genre req)\<rparr>"

definition getPage :: "nat \<Rightarrow> store \<Rightarrow> request \<Rightarrow> show list response" where
  "getPage pageSize st req =
     (let page = js_sub (to_number (req_page req)) (Num 1);
          offset = js_mul page (Num (int pageSize))
      in if full_listing (req_page req) then
           then_catch
             (aggregate st [Match query, Project projections, Sort [(Title, Num (- 1))]])
             Json Next
         else
           (let ord = order_of (req_order req);
                sort = sort_of ord (req_sort req)
            in then_catch
                 (aggregate st [Sort sort, Match (query_of req), Project projections,
                                Skip offset, Limit pageSize])
                 Json jfson))"

subsection \<open>getShow and getRandomShow\<close>

definition getShow :: "store \<Rightarrow> string \<Rightarrow> show option response" where
  "getShow st i = then_catch (findOne st i without_latest_episode) Json Next"

text \<open>\<^verbatim>\<open>docs[0]\<close> is \<^verbatim>\<open>undefined\<close>, here \<open>None\<close>, when \<open>docs\<close> is empty.\<close>

definition first_doc :: "'a list \<Rightarrow> 'a option" where
  "first_doc docs = (case docs of [] \<Rightarrow> None | d # _ \<Rightarrow> Some d)"

definition getRandomShow :: "store \<Rightarrow> nat \<Rightarrow> show option response" where
  "getRandomShow st r =
     then_catch (aggregate st [Sample_one r, Limit 1]) (\<lambda>docs. Json (first_doc docs)) Next"

section \<open>What the specification says\<close>

text \<open>The entries that satisfy the standing invariant \<^verbatim>\<open>num_seasons > 0\<close>.\<close>

definition qualifying :: "show list \<Rightarrow> show list" where
  "qualifying xs = filter (\<lambda>s. 0 < num_seasons s) xs"

text \<open>
  The word \<open>w\<close> stands in \<open>s\<close> at position \<open>i\<close>, letter case ignored when
  \<open>ic\<close> is set; \<open>s\<close> contains \<open>w\<close>; \<open>s\<close> contains \<open>u\<close> and \<open>v\<close> joined
  by a hyphen or a blank.
\<close>

definition occurs_at :: "bool \<Rightarrow> string \<Rightarrow> string \<Rightarrow> nat \<Rightarrow> bool" where
  "occurs_at ic w s i = list_all2 (char_eq ic) (take (length w) (drop i s)) w"

definition contains_ci :: "string \<Rightarrow> string \<Rightarrow> bool" where
  "contains_ci w s = list_ex (occurs_at True w s) [0..<Suc (length s)]"

definition is_separator :: "char \<Rightarrow> bool" where
  "is_separator c = (c = CHR ''-'' \<or> is_space c)"

definition joined_at :: "string \<Rightarrow> string \<Rightarrow> string \<Rightarrow> nat \<Rightarrow> bool" where
  "joined_at u v s i =
     (occurs_at True u s i \<and> i + length u < length s \<and> is_separator (s ! (i + length u))
      \<and> occurs_at True v s (Suc (i + length u)))"

definition contains_joined :: "string \<Rightarrow> string \<Rightarrow> string \<Rightarrow> bool" where
  "contains_joined u v s = list_ex (joined_at u v s) [0..<Suc (length s)]"

text \<open>
  A title contains a word as a whole word, letter case ignored: the word stands at a
  position of the title with a word boundary on either side. The pattern of the keyword
  search looks at the first line of a title.
\<close>

definition first_line :: "string \<Rightarrow> string" where
  "first_line t = takeWhile (\<lambda>c. c \<noteq> newline) t"

definition whole_word_at :: "string \<Rightarrow> string \<Rightarrow> nat \<Rightarrow> bool" where
  "whole_word_at w s i =
     (word_boundary s i \<and> occurs_at True w s i \<and> word_boundary s (i + length w))"

definition contains_whole_word :: "string \<Rightarrow> string \<Rightarrow> bool" where
  "contains_whole_word w s = list_ex (whole_word_at w s) [0..<Suc (length s)]"

text \<open>The page identifier \<^verbatim>\<open>shows/k\<close>.\<close>

definition page_id :: "nat \<Rightarrow> string" where
  "page_id k = ''shows/'' @ show_nat k"







subsection \<open>Sample data\<close>

definition sample_show :: "string \<Rightarrow> string \<Rightarrow> int \<Rightarrow> string list \<Rightarrow> show" where
  "sample_show i t n gs =
     \<lparr>show_id = i, imdb_id = i, tvdb_id = None, title = t, year = 2016, slug = i,
      genres = gs, images = [], rating = \<lparr>votes = 10, percentage = 80, watching = 3\<rparr>,
      num_seasons = n, latest_episode = Some 1468000000, episodes = Some []\<rparr>"

definition sample_request :: "string \<Rightarrow> request" where
  "sample_request p =
     \<lparr>req_page = p, req_order = None, req_keywords = None, req_sort = None,
      req_genre = None\<rparr>"

section \<open>Literal patterns\<close>

lemma occurs_at_Nil [simp]: "occurs_at ic [] s i"
  by (simp add: occurs_at_def)

lemma occurs_at_Cons:
  "occurs_at ic (c # w) s i = (i < length s \<and> char_eq ic (s ! i) c \<and> occurs_at ic w s (Suc i))"
proof (cases "i < length s")
  case True
  then have "drop i s = s ! i # drop (Suc i) s"
    by (simp add: Cons_nth_drop_Suc)
  then show ?thesis using True by (simp add: occurs_at_def)
next
  case False
  then show ?thesis by (simp add: occurs_at_def)
qed

lemma occurs_at_length:
  assumes "occurs_at ic w s i" and "w \<noteq> []"
  shows "i + length w \<le> length s"
proof -
  have "length (take (length w) (drop i s)) = length w"
    using assms(1) unfolding occurs_at_def by (rule list_all2_lengthD)
  then have "min (length s - i) (length w) = length w" by simp
  moreover have "0 < length w" using assms(2) by simp
  ultimately show ?thesis by arith
qed

lemma list_ex_upto: "list_ex P [0..<Suc n] = (\<exists>i\<le>n. P i)"
  by (simp add: list_ex_iff Bex_def less_Suc_eq_le del: upt_Suc)


lemma atoms_ends_chars:
  "atoms_ends ic (map Chr w @ rest) s i =
     (if occurs_at ic w s i then atoms_ends ic rest s (i + length w) else [])"
  by (induction w arbitrary: i) (simp_all add: occurs_at_Cons)

lemma items_ends_literal:
  "items_ends ic (literal w @ rest) s i =
     (if occurs_at ic w s i then items_ends ic rest s (i + length w) else [])"
  by (induction w arbitrary: i) (simp_all add: occurs_at_Cons literal_def)

lemma regex_test_word_rx:
  "regex_test (word_rx w) s = (\<exists>i\<le>length s. occurs_at True w s i)"
proof -
  have "items_ends True (literal w) s i \<noteq> [] \<longleftrightarrow> occurs_at True w s i" for i
    using items_ends_literal [of True w "[]" s i] by simp
  then show ?thesis
    by (simp add: regex_test_def word_rx_def list_ex_upto del: upt_Suc)
qed


lemma to_lower_idem: "to_lower (to_lower c) = to_lower c"
  by (auto simp: to_lower_def code_def)

lemma char_eq_to_lower: "char_eq True (to_lower a) b = char_eq True a b"
  by (simp add: char_eq_def to_lower_idem)

lemma occurs_at_toLowerCase: "occurs_at True w (toLowerCase s) i = occurs_at True w s i"
  by (simp add: occurs_at_def toLowerCase_def drop_map take_map list_all2_map1 char_eq_to_lower)

lemma contains_ci_iff: "contains_ci w s = (\<exists>i\<le>length s. occurs_at True w s i)"
  by (simp add: contains_ci_def list_ex_upto del: upt_Suc)

lemma regex_test_contains_ci: "regex_test (word_rx w) s = contains_ci w s"
  by (simp add: regex_test_word_rx contains_ci_iff)

lemma length_toLowerCase: "length (toLowerCase s) = length s"
  by (simp add: toLowerCase_def)

lemma contains_ci_toLowerCase: "contains_ci w (toLowerCase s) = contains_ci w s"
  by (simp add: contains_ci_iff occurs_at_toLowerCase length_toLowerCase)


lemma toLowerCase_Nil: "(toLowerCase s = []) = (s = [])"
  by (simp add: toLowerCase_def)

section \<open>Numerals\<close>













section \<open>The stable sort\<close>

lemma mset_insort_by: "mset (insort_by le x xs) = add_mset x (mset xs)"
  by (induction xs) auto

lemma mset_sort_by: "mset (sort_by le xs) = mset xs"
  by (induction xs) (simp_all add: sort_by_def mset_insort_by)

lemma set_insort_by: "set (insort_by le x xs) = insert x (set xs)"
  by (induction xs) auto

lemma sorted_insort_by:
  assumes total: "\<forall>a b. le a b \<or> le b a"
    and trans: "\<forall>a b c. le a b \<longrightarrow> le b c \<longrightarrow> le a c"
  shows "sorted_wrt le xs \<Longrightarrow> sorted_wrt le (insort_by le x xs)"
proof (induction xs)
  case Nil
  then show ?case by simp
next
  case (Cons y ys)
  show ?case
  proof (cases "le x y")
    case True
    with Cons.prems trans show ?thesis by auto
  next
    case False
    with total have "le y x" by blast
    with Cons False show ?thesis by (auto simp: set_insort_by)
  qed
qed

lemma sorted_sort_by:
  assumes total: "\<forall>a b. le a b \<or> le b a"
    and trans: "\<forall>a b c. le a b \<longrightarrow> le b c \<longrightarrow> le a c"
  shows "sorted_wrt le (sort_by le xs)"
proof (induction xs)
  case Nil
  then show ?case by (simp add: sort_by_def)
next
  case (Cons x xs)
  with total trans have "sorted_wrt le (insort_by le x (sort_by le xs))"
    by (simp add: sorted_insort_by)
  then show ?case by (simp add: sort_by_def)
qed

lemma filter_insort_by_drop: "\<not> P x \<Longrightarrow> filter P (insort_by le x xs) = filter P xs"
  by (induction xs) auto

lemma insort_by_first: "\<forall>y\<in>set ys. le x y \<Longrightarrow> insort_by le x ys = x # ys"
  by (cases ys) auto

lemma filter_insort_by_keep:
  assumes trans: "\<forall>a b c. le a b \<longrightarrow> le b c \<longrightarrow> le a c"
  shows "sorted_wrt le xs \<Longrightarrow> P x \<Longrightarrow> filter P (insort_by le x xs) = insort_by le x (filter P xs)"
proof (induction xs)
  case Nil
  then show ?case by simp
next
  case (Cons y ys)
  show ?case
  proof (cases "le x y")
    case True
    have "\<forall>z\<in>set (filter P (y # ys)). le x z"
      using True Cons.prems(1) trans by auto
    then have "insort_by le x (filter P (y # ys)) = x # filter P (y # ys)"
      by (rule insort_by_first)
    with True Cons.prems(2) show ?thesis by simp
  next
    case False
    with Cons show ?thesis by simp
  qed
qed

lemma filter_sort_by:
  assumes total: "\<forall>a b. le a b \<or> le b a"
    and trans: "\<forall>a b c. le a b \<longrightarrow> le b c \<longrightarrow> le a c"
  shows "filter P (sort_by le xs) = sort_by le (filter P xs)"
proof (induction xs)
  case Nil
  then show ?case by (simp add: sort_by_def)
next
  case (Cons x xs)
  have srt: "sorted_wrt le (sort_by le xs)"
    using total trans by (rule sorted_sort_by)
  show ?case
  proof (cases "P x")
    case True
    have "filter P (sort_by le (x # xs)) = filter P (insort_by le x (sort_by le xs))"
      by (simp add: sort_by_def)
    also have "\<dots> = insort_by le x (filter P (sort_by le xs))"
      using trans srt True by (rule filter_insort_by_keep)
    also have "\<dots> = sort_by le (filter P (x # xs))"
      using True Cons.IH by (simp add: sort_by_def)
    finally show ?thesis .
  next
    case False
    then show ?thesis
      using Cons.IH by (simp add: sort_by_def filter_insort_by_drop)
  qed
qed

subsection \<open>The order of the documents\<close>

lemma skey_less_irrefl: "\<not> skey_less a a"
  by (cases a) auto

lemma skey_less_trans: "skey_less a b \<Longrightarrow> skey_less b c \<Longrightarrow> skey_less a c"
  by (cases a; cases b; cases c) auto

lemma skey_less_total: "a \<noteq> b \<Longrightarrow> skey_less a b \<or> skey_less b a"
  by (cases a; cases b) auto

lemma skey_less_asym: "skey_less a b \<Longrightarrow> \<not> skey_less b a"
  using skey_less_irrefl skey_less_trans by blast

lemma doc_less_asym: "doc_less spec a b \<Longrightarrow> \<not> doc_less spec b a"
  by (induction spec a b rule: doc_less.induct) (auto split: if_splits dest: skey_less_asym)

lemma doc_le_total: "doc_le spec a b \<or> doc_le spec b a"
  using doc_less_asym by (auto simp: doc_le_def)

lemma doc_less_trans: "doc_less spec a b \<Longrightarrow> doc_less spec b c \<Longrightarrow> doc_less spec a c"
proof (induction spec)
  case Nil
  then show ?case by simp
next
  case (Cons fd spec)
  obtain f d where fd: "fd = (f, d)" by (cases fd)
  show ?case
    using Cons unfolding fd
    by (auto split: if_splits dest: skey_less_trans skey_less_asym simp: skey_less_irrefl)
qed

lemma doc_less_cotrans: "doc_less spec a c \<Longrightarrow> doc_less spec a b \<or> doc_less spec b c"
proof (induction spec)
  case Nil
  then show ?case by simp
next
  case (Cons fd spec)
  obtain f d where fd: "fd = (f, d)" by (cases fd)
  show ?case
    using Cons unfolding fd
    by (auto split: if_splits dest: skey_less_trans skey_less_total simp: skey_less_irrefl)
qed

lemma doc_le_trans: "doc_le spec a b \<Longrightarrow> doc_le spec b c \<Longrightarrow> doc_le spec a c"
  using doc_less_cotrans unfolding doc_le_def by blast

section \<open>The keyword pattern\<close>

lemma concat_map_not_Nil: "(concat (map f xs) \<noteq> []) = (\<exists>x\<in>set xs. f x \<noteq> [])"
  by (induction xs) auto

lemma atoms_ends_word:
  "atoms_ends True (Word_b # map Chr w @ [Word_b]) t j =
     (if whole_word_at w t j then [j + length w] else [])"
proof -
  have a: "atoms_ends True (Word_b # map Chr w @ [Word_b]) t j =
          (if word_boundary t j then atoms_ends True (map Chr w @ [Word_b]) t j else [])"
    by simp
  have b: "atoms_ends True (map Chr w @ [Word_b]) t j =
          (if occurs_at True w t j then atoms_ends True [Word_b] t (j + length w) else [])"
    by (rule atoms_ends_chars)
  have c: "atoms_ends True [Word_b] t k = (if word_boundary t k then [k] else [])" for k
    by simp
  show ?thesis
    unfolding a b c whole_word_at_def by simp
qed

lemma lookahead_ok:
  "(atoms_ends True (Dot_star # Word_b # map Chr w @ [Word_b]) t 0 \<noteq> []) =
     (\<exists>j\<le>length (first_line t). whole_word_at w t j)"
proof -
  have e: "atoms_ends True (Dot_star # Word_b # map Chr w @ [Word_b]) t 0 =
          concat (map (atoms_ends True (Word_b # map Chr w @ [Word_b]) t)
                      [0..<Suc (length (first_line t))])"
    by (simp add: first_line_def del: upt_Suc)
  show ?thesis
    unfolding e concat_map_not_Nil atoms_ends_word
    by (auto simp: less_Suc_eq_le simp del: upt_Suc)
qed

lemma items_ends_lookaheads:
  "(items_ends True (map lookahead ws @ [Atom Dot_star]) t 0 \<noteq> []) =
     list_all (\<lambda>w. \<exists>j\<le>length (first_line t). whole_word_at w t j) ws"
proof (induction ws)
  case Nil
  have "items_ends True [] t = (\<lambda>i. [i])"
    by (rule ext) simp
  then have "items_ends True [Atom Dot_star] t 0 = [0..<Suc (length (first_line t))]"
    by (simp add: first_line_def del: upt_Suc)
  then show ?case by simp
next
  case (Cons w ws)
  show ?case
    using Cons.IH lookahead_ok [of w t]
    by (auto simp: lookahead_def simp del: atoms_ends.simps)
qed

lemma regex_test_keyword:
  "regex_test (keyword_regex ks) t =
     list_all (\<lambda>w. \<exists>j\<le>length (first_line t). whole_word_at w t j) (keyword_tokens ks)"
proof -
  let ?X = "map lookahead (keyword_tokens ks) @ [Atom Dot_star]"
  have "items_ends True ([Atom Bol] @ ?X) t i = (if i = 0 then items_ends True ?X t 0 else [])" for i
    by simp
  then have "regex_test (keyword_regex ks) t = (\<exists>i\<le>length t. i = 0 \<and> items_ends True ?X t 0 \<noteq> [])"
    by (simp add: regex_test_def keyword_regex_def list_ex_upto del: upt_Suc)
  also have "\<dots> = (items_ends True ?X t 0 \<noteq> [])"
    by auto
  finally show ?thesis
    by (simp only: items_ends_lookaheads)
qed

subsection \<open>The first line of a title\<close>

lemma first_line_nth: "k < length (first_line t) \<Longrightarrow> first_line t ! k = t ! k"
  unfolding first_line_def by (rule takeWhile_nth)

lemma first_line_le: "length (first_line t) \<le> length t"
  unfolding first_line_def by (rule length_takeWhile_le)

lemma first_line_end:
  "length (first_line t) < length t \<Longrightarrow> t ! length (first_line t) = newline"
  unfolding first_line_def using nth_length_takeWhile [of "\<lambda>c. c \<noteq> newline" t] by simp

lemma newline_not_word: "\<not> is_word newline"
  by (simp add: is_word_def is_alnum_def newline_def code_def)

lemma word_before_first_line:
  "j \<le> length (first_line t) \<Longrightarrow> word_before t j = word_before (first_line t) j"
  using first_line_le [of t] first_line_nth [of "j - 1" t]
  by (cases j) (auto simp: word_before_def)

lemma word_at_first_line:
  "j \<le> length (first_line t) \<Longrightarrow> word_at t j = word_at (first_line t) j"
  using first_line_le [of t] first_line_nth [of j t] first_line_end [of t] newline_not_word
  by (cases "j < length (first_line t)") (auto simp: word_at_def)

lemma word_boundary_first_line:
  "j \<le> length (first_line t) \<Longrightarrow> word_boundary t j = word_boundary (first_line t) j"
  by (simp add: word_boundary_def word_before_first_line word_at_first_line)

lemma is_alnum_to_lower: "is_alnum c \<Longrightarrow> is_alnum (to_lower c)"
  by (auto simp: is_alnum_def to_lower_def code_def)

lemma alnum_not_newline:
  assumes "is_alnum c"
  shows "\<not> char_eq True newline c"
proof -
  have "is_alnum (to_lower c)"
    using assms by (rule is_alnum_to_lower)
  moreover have "to_lower newline = newline"
    by (simp add: to_lower_def newline_def code_def)
  moreover have "\<not> is_alnum newline"
    by (simp add: is_alnum_def newline_def code_def)
  ultimately show ?thesis
    by (auto simp: char_eq_def)
qed

lemma occurs_at_first_line:
  "list_all is_alnum w \<Longrightarrow> j \<le> length (first_line t) \<Longrightarrow>
   occurs_at True w t j = occurs_at True w (first_line t) j"
proof (induction w arbitrary: j)
  case Nil
  then show ?case by simp
next
  case (Cons c w)
  show ?case
  proof (cases "j < length (first_line t)")
    case True
    with Cons first_line_le [of t] first_line_nth [of j t] show ?thesis
      by (simp add: occurs_at_Cons)
  next
    case False
    with Cons.prems have j: "j = length (first_line t)" by simp
    have "\<not> (j < length t \<and> char_eq True (t ! j) c)"
      using first_line_end [of t] alnum_not_newline [of c] Cons.prems(1) unfolding j by auto
    then show ?thesis using False by (auto simp: occurs_at_Cons)
  qed
qed

lemma whole_word_at_first_line:
  assumes "list_all is_alnum w" and "j \<le> length (first_line t)"
  shows "whole_word_at w t j = whole_word_at w (first_line t) j"
proof (cases "occurs_at True w (first_line t) j")
  case True
  have "j + length w \<le> length (first_line t)"
  proof (cases "w = []")
    case True
    with assms(2) show ?thesis by simp
  next
    case False
    with \<open>occurs_at True w (first_line t) j\<close> show ?thesis by (rule occurs_at_length)
  qed
  with assms show ?thesis
    by (simp add: whole_word_at_def occurs_at_first_line word_boundary_first_line)
next
  case False
  with assms show ?thesis
    by (simp add: whole_word_at_def occurs_at_first_line)
qed

lemma keyword_tokens_alnum: "w \<in> set (keyword_tokens ks) \<Longrightarrow> list_all is_alnum w"
  by (auto simp: keyword_tokens_def toLowerCase_def strip_non_alnum_def list_all_iff
      is_alnum_to_lower)

lemma contains_whole_word_iff:
  "contains_whole_word w s = (\<exists>j\<le>length s. whole_word_at w s j)"
  by (simp add: contains_whole_word_def list_ex_upto del: upt_Suc)

lemma regex_test_keyword_words:
  "regex_test (keyword_regex ks) t =
     list_all (\<lambda>w. contains_whole_word w (first_line t)) (keyword_tokens ks)"
proof -
  have "(\<exists>j\<le>length (first_line t). whole_word_at w t j) = contains_whole_word w (first_line t)"
    if "w \<in> set (keyword_tokens ks)" for w
    using whole_word_at_first_line [OF keyword_tokens_alnum [OF that]]
    by (auto simp: contains_whole_word_iff)
  then show ?thesis
    by (simp add: regex_test_keyword list_all_iff)
qed

section \<open>The sort and genre parameters\<close>

lemma sort_of_toLowerCase: "sort_of d (Some (toLowerCase s)) = sort_of d (Some s)"
  by (simp add: sort_of_def Let_def regex_test_contains_ci contains_ci_toLowerCase toLowerCase_Nil)

lemma sort_names:
  "sort_of d (Some ''name'') = [(Title, d)]"
  "sort_of d (Some ''rating'') = [(Rating_percentage, d), (Rating_votes, d)]"
  "sort_of d (Some ''trending'') = [(Rating_watching, d)]"
  "sort_of d (Some ''updated'') = [(Latest_episode, d)]"
  "sort_of d (Some ''year'') = [(Year, d)]"
  by code_simp+

subsection \<open>The genre patterns\<close>

lemma to_lower_hyphen: "(to_lower d = CHR ''-'') = (d = CHR ''-'')"
proof
  assume a: "to_lower d = CHR ''-''"
  show "d = CHR ''-''"
  proof (rule ccontr)
    assume "d \<noteq> CHR ''-''"
    with a have up: "(65 \<le> code d \<and> code d \<le> 90) \<or> (192 \<le> code d \<and> code d \<le> 222 \<and> code d \<noteq> 215)"
      and "char_of (code d + 32) = CHR ''-''"
      by (auto simp: to_lower_def split: if_splits)
    then have "code (char_of (code d + 32) :: char) = 45"
      by (simp add: code_def)
    with up show False by (auto simp: code_def)
  qed
next
  assume "d = CHR ''-''"
  then show "to_lower d = CHR ''-''"
    by (simp add: to_lower_def code_def)
qed

lemma in_separator_class: "(char_eq True c CHR ''-'' \<or> is_space c) = is_separator c"
proof -
  have h: "to_lower CHR ''-'' = CHR ''-''"
    by (simp add: to_lower_def code_def)
  show ?thesis
    by (simp add: is_separator_def char_eq_def h to_lower_hyphen)
qed

lemma items_ends_joined:
  "(items_ends True (items (joined_rx u v)) s i \<noteq> []) = joined_at u v s i"
proof -
  let ?cls = "Atom (Class [Single CHR ''-'', Space])"
  have a: "items_ends True (literal u @ ?cls # literal v) s i =
            (if occurs_at True u s i then items_ends True (?cls # literal v) s (i + length u) else [])"
    by (rule items_ends_literal)
  have b: "items_ends True (?cls # literal v) s k =
            (if k < length s \<and> is_separator (s ! k) then items_ends True (literal v) s (Suc k) else [])" for k
    by (auto simp: in_separator_class)
  have c: "(items_ends True (literal v) s k \<noteq> []) = occurs_at True v s k" for k
    using items_ends_literal [of True v "[]" s k] by simp
  show ?thesis
    using c [of "Suc (i + length u)"]
    by (auto simp: joined_rx_def a joined_at_def in_separator_class)
qed

lemma regex_test_joined: "regex_test (joined_rx u v) s = contains_joined u v s"
proof -
  have "ignore_case (joined_rx u v) = True"
    by (simp add: joined_rx_def)
  then show ?thesis
    by (simp add: regex_test_def contains_joined_def items_ends_joined)
qed

lemma genres_of_Some:
  "genres_of (Some g) =
     (if g \<noteq> [] \<and> \<not> contains_ci ''all'' g
      then Some (if contains_joined ''science'' ''fiction'' g \<or> contains_joined ''sci'' ''fi'' g
                 then ''science-fiction'' else toLowerCase g)
      else None)"
proof -
  have "toLowerCase ''science-fiction'' = ''science-fiction''"
    by code_simp
  then show ?thesis
    by (simp add: genres_of_def Let_def regex_test_contains_ci regex_test_joined)
qed

section \<open>The two modes of getPage\<close>

lemma matches_query: "matches query = (\<lambda>s. 0 < num_seasons s)"
  by (rule ext) (simp add: matches_def query_def)

lemma doc_le_total': "\<forall>a b. doc_le spec a b \<or> doc_le spec b a"
  using doc_le_total by blast

lemma doc_le_trans': "\<forall>a b c. doc_le spec a b \<longrightarrow> doc_le spec b c \<longrightarrow> doc_le spec a c"
  using doc_le_trans by blast

lemma filter_sort_docs:
  "filter P (sort_by (doc_le spec) xs) = sort_by (doc_le spec) (filter P xs)"
  using doc_le_total' doc_le_trans' by (rule filter_sort_by)

lemma set_sort_by: "set (sort_by le xs) = set xs"
  using mset_sort_by [of le xs] by (metis set_mset_mset)

lemma getPage_full:
  "full_listing (req_page req) \<Longrightarrow>
   getPage p (Collection xs) req =
     Json (sort_by (doc_le [(Title, Num (- 1))]) (map projections (qualifying xs)))"
  by (simp add: getPage_def Let_def aggregate_def then_catch_def valid_direction_def
      matches_query qualifying_def)

lemma sort_of_directions: "list_all (\<lambda>(f, d'). valid_direction d') (sort_of d sp) = valid_direction d"
  by (cases sp) (simp_all add: sort_of_def Let_def)

lemma getPage_paged:
  "\<not> full_listing (req_page req) \<Longrightarrow>
   getPage p (Collection xs) req =
     (case js_mul (js_sub (to_number (req_page req)) (Num 1)) (Num (int p)) of
        Num n \<Rightarrow>
          if valid_direction (order_of (req_order req)) \<and> 0 \<le> n \<and> 0 < p
          then Json (take p (drop (nat n) (map projections (filter (matches (query_of req))
                 (sort_by (doc_le (sort_of (order_of (req_order req)) (req_sort req))) xs)))))
          else TypeError
      | NaN \<Rightarrow> TypeError)"
  by (simp add: getPage_def Let_def aggregate_def then_catch_def sort_of_directions jfson_def
      split: jsnum.split)


subsection \<open>Full listing\<close>


subsection \<open>The standing invariant\<close>

lemma matches_query_of: "matches (query_of req) s \<Longrightarrow> 0 < num_seasons s"
  by (simp add: matches_def query_of_def query_def)

lemma qualifying_idem: "qualifying (qualifying xs) = qualifying xs"
  by (simp add: qualifying_def)

lemma filter_matches_qualifying:
  "filter (matches (query_of req)) (qualifying xs) = filter (matches (query_of req)) xs"
  unfolding qualifying_def filter_filter
  by (rule filter_cong) (auto dest: matches_query_of)

lemma paged_qualifying:
  "filter (matches (query_of req)) (sort_by (doc_le spec) (qualifying xs)) =
   filter (matches (query_of req)) (sort_by (doc_le spec) xs)"
  by (simp only: filter_sort_docs filter_matches_qualifying)

lemma getPage_qualifying:
  "getPage p (Collection (qualifying xs)) req = getPage p (Collection xs) req"
proof (cases "full_listing (req_page req)")
  case True
  then show ?thesis by (simp add: getPage_full qualifying_idem)
next
  case False
  then show ?thesis by (simp add: getPage_paged paged_qualifying split: jsnum.split)
qed

lemma num_seasons_projections: "num_seasons (projections s) = num_seasons s"
  by (simp add: projections_def)

lemma getPage_docs_qualify:
  assumes "getPage p (Collection xs) req = Json docs"
  shows "list_all (\<lambda>d. 0 < num_seasons d) docs"
proof (cases "full_listing (req_page req)")
  case True
  with assms have "docs = sort_by (doc_le [(Title, Num (- 1))]) (map projections (qualifying xs))"
    by (simp add: getPage_full)
  then show ?thesis
    by (auto simp: list_all_iff set_sort_by qualifying_def num_seasons_projections)
next
  case False
  have sub: "0 < num_seasons d"
    if "d \<in> set (take p (drop n (map projections (filter (matches (query_of req)) ys))))"
    for d n ys
  proof -
    from that have "d \<in> set (map projections (filter (matches (query_of req)) ys))"
      by (blast dest: in_set_takeD in_set_dropD)
    then show ?thesis
      by (auto simp: num_seasons_projections dest: matches_query_of)
  qed
  from assms False obtain n ys where
    "docs = take p (drop n (map projections (filter (matches (query_of req)) ys)))"
    by (auto simp: getPage_paged split: jsnum.splits if_splits)
  then show ?thesis
    using sub by (auto simp: list_all_iff)
qed

lemma count_docs_query: "count_docs (Collection xs) query = Inr (length (qualifying xs))"
  by (simp add: count_docs_def matches_query qualifying_def)

lemma getShows_qualifying: "getShows p (Collection (qualifying xs)) = getShows p (Collection xs)"
  by (simp add: getShows_def count_docs_query qualifying_idem)

lemma getRandomShow_any:
  assumes "e \<in> set xs"
  shows "\<exists>r. getRandomShow (Collection xs) r = Json (Some e)"
proof -
  from assms obtain k where k: "k < length xs" "xs ! k = e"
    by (auto simp: in_set_conv_nth)
  then have "getRandomShow (Collection xs) k = Json (Some e)"
    by (auto simp: getRandomShow_def aggregate_def then_catch_def first_doc_def)
  then show ?thesis ..
qed

section \<open>The request as the specification reads it\<close>







section \<open>The other handlers\<close>

lemma find_by_key:
  "distinct (map f xs) \<Longrightarrow> s \<in> set xs \<Longrightarrow> find (\<lambda>x. f x = f s) xs = Some s"
  by (induction xs) (auto simp: image_iff)

lemma find_absent: "k \<notin> f ` set xs \<Longrightarrow> find (\<lambda>x. f x = k) xs = None"
  by (induction xs) auto

lemma getShow_reachable:
  "getShow (Collection xs) i =
     Json (map_option without_latest_episode (find (\<lambda>s. show_id s = i) xs))"
  by (simp add: getShow_def findOne_def then_catch_def)

lemma push_pages_finite:
  "i \<le> Suc n \<Longrightarrow> push_pages (enat n) i docs = Some (docs @ map page_id [i..<Suc n])"
proof (induction "Suc n - i" arbitrary: i docs)
  case 0
  then have "i = Suc n" by simp
  then show ?case
    by (subst push_pages.simps) (simp add: plus_1_eSuc eSuc_enat)
next
  case (Suc m)
  then have lt: "i < Suc n" and le: "Suc i \<le> Suc n" and m: "m = Suc n - Suc i"
    by simp_all
  have "push_pages (enat n) i docs = push_pages (enat n) (Suc i) (docs @ [page_id i])"
    using lt by (subst push_pages.simps) (simp add: plus_1_eSuc eSuc_enat page_id_def)
  also have "\<dots> = Some ((docs @ [page_id i]) @ map page_id [Suc i..<Suc n])"
    using Suc.hyps(1) [OF m le] .
  also have "\<dots> = Some (docs @ map page_id [i..<Suc n])"
    using lt by (simp add: upt_conv_Cons del: upt_Suc)
  finally show ?case .
qed

lemma getPage_unreachable:
  "getPage p Unreachable req =
     (if full_listing (req_page req) then Next StoreUnreachable else TypeError)"
  by (simp add: getPage_def Let_def aggregate_def then_catch_def jfson_def)

section \<open>The handlers on a store that answers\<close>

subsection \<open>getRandomShow\<close>

text \<open>
  C10. On a store that holds no entry at all, \<^verbatim>\<open>getRandomShow\<close> sends the first
  element of an empty sample, which is \<^verbatim>\<open>undefined\<close>; it neither calls
  \<^verbatim>\<open>next\<close> nor throws.
\<close>

theorem getRandomShow_empty: "getRandomShow (Collection []) r = Json None"
  by (simp add: getRandomShow_def aggregate_def then_catch_def first_doc_def)

subsection \<open>getShow\<close>

text \<open>
  C8. \<^verbatim>\<open>getShow\<close> answers with the entry that has the identifier asked for, its
  field \<^verbatim>\<open>latest_episode\<close> removed and every other field as stored; when no entry
  has the identifier, the answer is the absent value, sent with \<^verbatim>\<open>res.json\<close>. On a
  store that answers, the handler never takes the error path.
\<close>

theorem getShow_result:
  "(distinct (map show_id xs) \<and> s \<in> set xs \<longrightarrow>
      getShow (Collection xs) (show_id s) = Json (Some (s\<lparr>latest_episode := None\<rparr>)))
   \<and> (i \<notin> show_id ` set xs \<longrightarrow> getShow (Collection xs) i = Json None)
   \<and> (getShow (Collection xs) i = Json (Some d) \<longrightarrow> latest_episode d = None)
   \<and> (\<exists>r. getShow (Collection xs) i = Json r)"
proof (intro conjI impI)
  assume "distinct (map show_id xs) \<and> s \<in> set xs"
  then show "getShow (Collection xs) (show_id s) = Json (Some (s\<lparr>latest_episode := None\<rparr>))"
    by (simp add: getShow_reachable find_by_key without_latest_episode_def)
next
  assume "i \<notin> show_id ` set xs"
  then show "getShow (Collection xs) i = Json None"
    by (simp add: getShow_reachable find_absent)
next
  assume "getShow (Collection xs) i = Json (Some d)"
  then show "latest_episode d = None"
    by (auto simp: getShow_reachable without_latest_episode_def)
next
  show "\<exists>r. getShow (Collection xs) i = Json r"
    by (simp add: getShow_reachable)
qed

theorem getShow_result_witness:
  "getShow (Collection [sample_show ''tt1'' ''Alpha'' 2 [], sample_show ''tt2'' ''Beta'' 1 []])
     ''tt2'' = Json (Some ((sample_show ''tt2'' ''Beta'' 1 [])\<lparr>latest_episode := None\<rparr>))
   \<and> latest_episode ((sample_show ''tt2'' ''Beta'' 1 [])\<lparr>latest_episode := None\<rparr>) = None
   \<and> getShow (Collection [sample_show ''tt1'' ''Alpha'' 2 [], sample_show ''tt2'' ''Beta'' 1 []])
     ''tt9'' = Json None"
proof -
  let ?xs = "[sample_show ''tt1'' ''Alpha'' 2 [], sample_show ''tt2'' ''Beta'' 1 []]"
  let ?s = "sample_show ''tt2'' ''Beta'' 1 []"
  have h1: "distinct (map show_id ?xs) \<and> ?s \<in> set ?xs"
    by (simp add: sample_show_def)
  have h2: "''tt9'' \<notin> show_id ` set ?xs"
    by (simp add: sample_show_def)
  have i: "show_id ?s = ''tt2''"
    by (simp add: sample_show_def)
  from getShow_result [of ?xs ?s "''tt9''"] h1 h2 i
  have a: "getShow (Collection ?xs) ''tt2'' = Json (Some (?s\<lparr>latest_episode := None\<rparr>))"
    and b: "getShow (Collection ?xs) ''tt9'' = Json None"
    by simp_all
  from getShow_result [of ?xs ?s "''tt2''" "?s\<lparr>latest_episode := None\<rparr>"] a
  have "latest_episode (?s\<lparr>latest_episode := None\<rparr>) = None"
    by blast
  with a b show ?thesis by blast
qed

subsection \<open>getShows\<close>

text \<open>
  C5. For a page size \<open>p\<close> above zero and \<open>c\<close> entries that satisfy the standing
  invariant, \<^verbatim>\<open>getShows\<close> ends and sends exactly \<open>\<lceil>c / p\<rceil>\<close> page identifiers,
  \<^verbatim>\<open>shows/1\<close> up to \<^verbatim>\<open>shows/\<close>\<open>\<lceil>c / p\<rceil>\<close> in this order.
\<close>

theorem getShows_pages:
  assumes "0 < p"
  shows "\<exists>docs. getShows p (Collection xs) = Some (Json docs)
           \<and> int (length docs) = \<lceil>real (length (qualifying xs)) / real p\<rceil>
           \<and> docs = map page_id [1..<Suc (length docs)]"
proof -
  let ?n = "nat \<lceil>real (length (qualifying xs)) / real p\<rceil>"
  have "getShows p (Collection xs) = Some (Json (map page_id [1..<Suc ?n]))"
    using assms by (simp add: getShows_def count_docs_query pages_of_def push_pages_finite)
  moreover have "0 \<le> \<lceil>real (length (qualifying xs)) / real p\<rceil>"
    using ceiling_mono [of 0 "real (length (qualifying xs)) / real p"] by simp
  then have "int (length (map page_id [1..<Suc ?n])) = \<lceil>real (length (qualifying xs)) / real p\<rceil>"
    by (simp del: upt_Suc)
  ultimately show ?thesis
    by (metis length_map length_upt diff_Suc_1 One_nat_def)
qed

theorem getShows_pages_witness:
  "(0::nat) < 2
   \<and> getShows 2 (Collection [sample_show ''tt1'' ''Alpha'' 2 [], sample_show ''tt2'' ''Beta'' 0 [],
        sample_show ''tt3'' ''Gamma'' 1 [], sample_show ''tt4'' ''Delta'' 3 []])
       = Some (Json [''shows/1'', ''shows/2''])"
proof -
  let ?xs = "[sample_show ''tt1'' ''Alpha'' 2 [], sample_show ''tt2'' ''Beta'' 0 [],
        sample_show ''tt3'' ''Gamma'' 1 [], sample_show ''tt4'' ''Delta'' 3 []]"
  have h: "(0::nat) < 2" by simp
  have c: "length (qualifying ?xs) = 3"
    by (simp add: qualifying_def sample_show_def)
  have ids: "map page_id [1..<Suc 2] = [''shows/1'', ''shows/2'']"
    by code_simp
  from getShows_pages [OF h, of ?xs] obtain docs where
    d: "getShows 2 (Collection ?xs) = Some (Json docs)"
      "int (length docs) = \<lceil>real (length (qualifying ?xs)) / real (2::nat)\<rceil>"
      "docs = map page_id [1..<Suc (length docs)]"
    by blast
  have "\<lceil>real (3::nat) / real (2::nat)\<rceil> = 2" by simp
  with d(2) c have "length docs = 2" by simp
  with d(3) ids have "docs = [''shows/1'', ''shows/2'']" by simp
  with d(1) h show ?thesis by simp
qed

section \<open>The handlers on a store that fails\<close>

text \<open>
  C9. When the store fails, the handlers \<^verbatim>\<open>getShows\<close>, \<^verbatim>\<open>getShow\<close>,
  \<^verbatim>\<open>getRandomShow\<close> and the full listing of \<^verbatim>\<open>getPage\<close> pass the error to
  \<^verbatim>\<open>next\<close>. The paged branch of \<^verbatim>\<open>getPage\<close> does not: its handler calls
  \<^verbatim>\<open>res.jfson\<close>, which the response object does not have, and the
  \<^verbatim>\<open>TypeError\<close> this throws is all that comes of the request, for a store that cannot
  be reached as for page 0, whose negative offset the store rejects.
\<close>

theorem getPage_store_failure:
  "getPage 50 Unreachable (sample_request ''1'') = TypeError
   \<and> getPage 50 (Collection []) (sample_request ''0'') = TypeError
   \<and> getPage 50 Unreachable (sample_request ''all'') = Next StoreUnreachable
   \<and> getShows 50 Unreachable = Some (Next StoreUnreachable)
   \<and> getShow Unreachable ''tt1'' = Next StoreUnreachable
   \<and> getRandomShow Unreachable 0 = Next StoreUnreachable"
proof -
  have "\<not> full_listing ''1''" "\<not> full_listing ''0''" "full_listing ''all''"
    by code_simp+
  moreover have "getPage 50 (Collection []) (sample_request ''0'') = TypeError"
    by code_simp
  ultimately show ?thesis
    by (simp add: getPage_unreachable sample_request_def getShows_def count_docs_def
        getShow_def findOne_def getRandomShow_def aggregate_def then_catch_def)
qed

section \<open>getPage\<close>

subsection \<open>A numbered page\<close>



subsection \<open>The full listing\<close>




subsection \<open>The keyword filter\<close>

text \<open>
  C4, as the code has it. The keywords are cut at every single space character, and at
  no other white space; each piece loses every character that is not a letter or a
  digit and is lower-cased. A title matches exactly when each of these tokens stands in
  the first line of the title as a whole word, letter case ignored; the order of the
  tokens in the title plays no part.
\<close>

theorem keyword_match:
  "keyword_tokens ks = map (\<lambda>w. toLowerCase (filter is_alnum w)) (split CHR '' '' ks)
   \<and> regex_test (keyword_regex ks) t =
       list_all (\<lambda>w. contains_whole_word w (first_line t)) (keyword_tokens ks)"
proof -
  have "regex_test (keyword_regex ks) t =
       list_all (\<lambda>w. contains_whole_word w (first_line t)) (keyword_tokens ks)"
    by (rule regex_test_keyword_words)
  then show ?thesis
    by (simp add: keyword_tokens_def strip_non_alnum_def)
qed

theorem keyword_match_witness:
  "keyword_tokens ''Dead walking!'' = [''dead'', ''walking'']
   \<and> regex_test (keyword_regex ''Dead walking!'') ''The Walking Dead''
   \<and> \<not> regex_test (keyword_regex ''Dead walk'') ''The Walking Dead''"
proof -
  have "keyword_tokens ''Dead walking!'' = [''dead'', ''walking'']"
    and "keyword_tokens ''Dead walk'' = [''dead'', ''walk'']"
    and "first_line ''The Walking Dead'' = ''The Walking Dead''"
    and "contains_whole_word ''dead'' ''The Walking Dead''"
    and "contains_whole_word ''walking'' ''The Walking Dead''"
    and "\<not> contains_whole_word ''walk'' ''The Walking Dead''"
    by code_simp+
  then show ?thesis
    using keyword_match [of "''Dead walking!''" "''The Walking Dead''"]
      keyword_match [of "''Dead walk''" "''The Walking Dead''"]
    by simp
qed

text \<open>
  The claim as the specification words it fails twice. Keywords with a tabulator between
  \<^verbatim>\<open>a\<close> and \<^verbatim>\<open>b\<close> are one token \<^verbatim>\<open>ab\<close>, so the title \<^verbatim>\<open>a b\<close>, which has
  both words, does not match. And a word on the second line of a title is not found.
\<close>

theorem keyword_match_counterexample:
  "keyword_tokens [CHR ''a'', CHR 0x09, CHR ''b''] = [''ab'']
   \<and> contains_whole_word ''a'' ''a b'' \<and> contains_whole_word ''b'' ''a b''
   \<and> \<not> regex_test (keyword_regex [CHR ''a'', CHR 0x09, CHR ''b'']) ''a b''
   \<and> contains_whole_word ''b'' [CHR ''a'', CHR 0x0A, CHR ''b'']
   \<and> \<not> regex_test (keyword_regex ''b'') [CHR ''a'', CHR 0x0A, CHR ''b'']"
  by code_simp

subsection \<open>The sort selector\<close>

text \<open>
  C6. The direction is -1 when the request has no \<^verbatim>\<open>order\<close>, and the integer that
  \<^verbatim>\<open>parseInt\<close> reads otherwise. Without a \<^verbatim>\<open>sort\<close> parameter the selector is
  votes, percentage, watching; the parameter \<^verbatim>\<open>name\<close> makes it the title,
  \<^verbatim>\<open>rating\<close> percentage then votes, \<^verbatim>\<open>trending\<close> watching, \<^verbatim>\<open>updated\<close>
  \<^verbatim>\<open>latest_episode\<close> and \<^verbatim>\<open>year\<close> the year, in any letter case and each key in
  the direction of the request.
\<close>

theorem sort_selector:
  "order_of None = Num (- 1) \<and> order_of (Some []) = Num (- 1)
   \<and> (ord \<noteq> [] \<longrightarrow> order_of (Some ord) = parseInt ord)
   \<and> parseInt ''1'' = Num 1 \<and> parseInt ''-1'' = Num (- 1)
   \<and> sort_of d None = [(Rating_votes, d), (Rating_percentage, d), (Rating_watching, d)]
   \<and> (toLowerCase s = ''name'' \<longrightarrow> sort_of d (Some s) = [(Title, d)])
   \<and> (toLowerCase s = ''rating'' \<longrightarrow>
        sort_of d (Some s) = [(Rating_percentage, d), (Rating_votes, d)])
   \<and> (toLowerCase s = ''trending'' \<longrightarrow> sort_of d (Some s) = [(Rating_watching, d)])
   \<and> (toLowerCase s = ''updated'' \<longrightarrow> sort_of d (Some s) = [(Latest_episode, d)])
   \<and> (toLowerCase s = ''year'' \<longrightarrow> sort_of d (Some s) = [(Year, d)])"
proof -
  have p: "parseInt ''1'' = Num 1 \<and> parseInt ''-1'' = Num (- 1)"
    by code_simp
  have n: "sort_of d (Some s) = sort_of d (Some t)" if "toLowerCase s = t" for t
    using sort_of_toLowerCase [of d s] that by simp
  show ?thesis
    using p by (auto simp: order_of_def n sort_names) (simp add: sort_of_def)
qed

theorem sort_selector_witness:
  "order_of (Some ''1'') = Num 1
   \<and> sort_of (Num 1) (Some ''Name'') = [(Title, Num 1)]
   \<and> sort_of (Num 1) (Some ''RATING'') = [(Rating_percentage, Num 1), (Rating_votes, Num 1)]
   \<and> sort_of (Num 1) (Some ''Trending'') = [(Rating_watching, Num 1)]
   \<and> sort_of (Num 1) (Some ''updated'') = [(Latest_episode, Num 1)]
   \<and> sort_of (Num 1) (Some ''Year'') = [(Year, Num 1)]"
proof -
  have l: "toLowerCase ''Name'' = ''name''" "toLowerCase ''RATING'' = ''rating''"
    "toLowerCase ''Trending'' = ''trending''" "toLowerCase ''updated'' = ''updated''"
    "toLowerCase ''Year'' = ''year''"
    by code_simp+
  show ?thesis
    using sort_selector [of "''1''" "Num 1" "''Name''"]
      sort_selector [of "''1''" "Num 1" "''RATING''"]
      sort_selector [of "''1''" "Num 1" "''Trending''"]
      sort_selector [of "''1''" "Num 1" "''updated''"]
      sort_selector [of "''1''" "Num 1" "''Year''"]
    by (simp add: l)
qed

subsection \<open>The genre filter\<close>

text \<open>
  C7, as the code has it. A genre that is absent or empty, or that contains the letters
  \<^verbatim>\<open>all\<close> anywhere in any letter case, sets no genre filter. Any other genre that
  contains \<^verbatim>\<open>science\<close> and \<^verbatim>\<open>fiction\<close>, or \<^verbatim>\<open>sci\<close> and \<^verbatim>\<open>fi\<close>, joined by
  a hyphen or a blank, in any letter case, becomes the tag \<^verbatim>\<open>science-fiction\<close>; so
  \<^verbatim>\<open>Sci Fi\<close> and \<^verbatim>\<open>science-fiction\<close> filter alike. Every remaining genre is
  lower-cased. An entry passes the filter when the tag is one of its genre tags.
\<close>

theorem genre_filter:
  "genres_of None = None \<and> genres_of (Some []) = None
   \<and> (contains_ci ''all'' g \<longrightarrow> genres_of (Some g) = None)
   \<and> (g \<noteq> [] \<and> \<not> contains_ci ''all'' g
        \<and> (contains_joined ''science'' ''fiction'' g \<or> contains_joined ''sci'' ''fi'' g)
      \<longrightarrow> genres_of (Some g) = Some ''science-fiction'')
   \<and> (g \<noteq> [] \<and> \<not> contains_ci ''all'' g
        \<and> \<not> contains_joined ''science'' ''fiction'' g \<and> \<not> contains_joined ''sci'' ''fi'' g
      \<longrightarrow> genres_of (Some g) = Some (toLowerCase g))
   \<and> genres_of (Some ''Sci Fi'') = genres_of (Some ''science-fiction'')
   \<and> (genres_of (req_genre req) = None \<longrightarrow>
        matches (query_of req) s = matches ((query_of req)\<lparr>q_genres := None\<rparr>) s)
   \<and> (genres_of (req_genre req) = Some tag \<longrightarrow>
        matches (query_of req) s =
          (matches ((query_of req)\<lparr>q_genres := None\<rparr>) s \<and> tag \<in> set (genres s)))"
proof -
  have "genres_of (Some ''Sci Fi'') = genres_of (Some ''science-fiction'')"
    by code_simp
  moreover have "genres_of None = None"
    by (simp add: genres_of_def)
  ultimately show ?thesis
    by (auto simp: genres_of_Some matches_def query_of_def)
qed

theorem genre_filter_witness:
  "genres_of (Some ''Overall'') = None
   \<and> genres_of (Some ''Science Fiction'') = Some ''science-fiction''
   \<and> genres_of (Some ''Drama'') = Some ''drama''
   \<and> matches (query_of ((sample_request ''1'')\<lparr>req_genre := Some ''Drama''\<rparr>))
       (sample_show ''tt1'' ''Alpha'' 2 [''comedy'', ''drama''])
   \<and> \<not> matches (query_of ((sample_request ''1'')\<lparr>req_genre := Some ''Drama''\<rparr>))
       (sample_show ''tt1'' ''Alpha'' 2 [''melodrama''])
   \<and> genres_of (req_genre (sample_request ''1'')) = None
   \<and> matches (query_of (sample_request ''1'')) (sample_show ''tt1'' ''Alpha'' 2 [''melodrama''])"
proof -
  let ?req = "(sample_request ''1'')\<lparr>req_genre := Some ''Drama''\<rparr>"
  have a: "contains_ci ''all'' ''Overall''"
    and b: "''Science Fiction'' \<noteq> [] \<and> \<not> contains_ci ''all'' ''Science Fiction''
         \<and> (contains_joined ''science'' ''fiction'' ''Science Fiction''
              \<or> contains_joined ''sci'' ''fi'' ''Science Fiction'')"
    and c: "''Drama'' \<noteq> [] \<and> \<not> contains_ci ''all'' ''Drama''
         \<and> \<not> contains_joined ''science'' ''fiction'' ''Drama''
         \<and> \<not> contains_joined ''sci'' ''fi'' ''Drama''"
    and l: "toLowerCase ''Drama'' = ''drama''"
    by code_simp+
  have d: "genres_of (req_genre ?req) = Some ''drama''"
    using genre_filter [where g = "''Drama''"] c l by (simp add: sample_request_def)
  have m: "matches ((query_of ?req)\<lparr>q_genres := None\<rparr>) (sample_show ''tt1'' ''Alpha'' 2 gs)" for gs
    by (simp add: matches_def query_of_def query_def sample_request_def sample_show_def
        title_of_def)
  have n: "genres_of (req_genre (sample_request ''1'')) = None"
    by (simp add: sample_request_def genres_of_def)
  have m': "matches ((query_of (sample_request ''1''))\<lparr>q_genres := None\<rparr>)
              (sample_show ''tt1'' ''Alpha'' 2 gs)" for gs
    by (simp add: matches_def query_of_def query_def sample_request_def sample_show_def
        title_of_def)
  show ?thesis
    using genre_filter [of "''Overall''"] a
      genre_filter [of "''Science Fiction''"] b
      genre_filter [of "''Drama''"] c l
      genre_filter [where req = ?req and tag = "''drama''"
        and s = "sample_show ''tt1'' ''Alpha'' 2 [''comedy'', ''drama'']"]
      genre_filter [where req = ?req and tag = "''drama''"
        and s = "sample_show ''tt1'' ''Alpha'' 2 [''melodrama'']"]
      genre_filter [where req = "sample_request ''1''"
        and s = "sample_show ''tt1'' ''Alpha'' 2 [''melodrama'']"]
      d m n m'
    by (simp add: sample_show_def)
qed

text \<open>
  The claim as the specification words it, that every value other than \<^verbatim>\<open>all\<close> and
  the science fiction spellings is matched against the tags, fails for the genre
  \<^verbatim>\<open>football\<close>: it contains \<^verbatim>\<open>all\<close>, no filter is set, and an entry without that
  tag is listed.
\<close>

theorem genre_filter_counterexample:
  "toLowerCase ''football'' \<noteq> ''all''
   \<and> ''football'' \<notin> set (genres (sample_show ''tt1'' ''Alpha'' 2 [''drama'']))
   \<and> genres_of (Some ''football'') = None
   \<and> getPage 50 (Collection [sample_show ''tt1'' ''Alpha'' 2 [''drama'']])
       ((sample_request ''1'')\<lparr>req_genre := Some ''football''\<rparr>)
     = Json [projections (sample_show ''tt1'' ''Alpha'' 2 [''drama''])]"
  by code_simp

subsection \<open>The standing invariant\<close>

text \<open>
  C1. The count, \<^verbatim>\<open>getShows\<close> and \<^verbatim>\<open>getPage\<close> give the same answer on a store
  and on the store without its entries of \<^verbatim>\<open>num_seasons \<le> 0\<close>, and every document
  \<^verbatim>\<open>getPage\<close> sends has \<^verbatim>\<open>num_seasons > 0\<close>. \<^verbatim>\<open>getRandomShow\<close> samples the
  whole store: for each of its entries, one with \<^verbatim>\<open>num_seasons \<le> 0\<close> included, there
  is a draw that returns it.
\<close>

theorem num_seasons_invariant:
  "count_docs (Collection xs) query = Inr (length (qualifying xs))
   \<and> getShows p (Collection xs) = getShows p (Collection (qualifying xs))
   \<and> getPage p (Collection xs) req = getPage p (Collection (qualifying xs)) req
   \<and> (getPage p (Collection xs) req = Json docs \<longrightarrow> list_all (\<lambda>d. 0 < num_seasons d) docs)
   \<and> (e \<in> set xs \<and> num_seasons e \<le> 0 \<longrightarrow>
        (\<exists>r. getRandomShow (Collection xs) r = Json (Some e)))"
  using getPage_docs_qualify [of p xs req docs] getRandomShow_any [of e xs]
  by (simp add: count_docs_query getShows_qualifying getPage_qualifying)

theorem num_seasons_invariant_witness:
  "getPage 50
     (Collection [sample_show ''tt1'' ''Alpha'' 2 [''drama''], sample_show ''tt2'' ''Beta'' 0 []])
     (sample_request ''1'')
   = Json [projections (sample_show ''tt1'' ''Alpha'' 2 [''drama''])]
   \<and> list_all (\<lambda>d. 0 < num_seasons d) [projections (sample_show ''tt1'' ''Alpha'' 2 [''drama''])]
   \<and> num_seasons (sample_show ''tt2'' ''Beta'' 0 []) \<le> 0
   \<and> (\<exists>r. getRandomShow
         (Collection [sample_show ''tt1'' ''Alpha'' 2 [''drama''], sample_show ''tt2'' ''Beta'' 0 []])
         r = Json (Some (sample_show ''tt2'' ''Beta'' 0 [])))"
proof -
  let ?xs = "[sample_show ''tt1'' ''Alpha'' 2 [''drama''], sample_show ''tt2'' ''Beta'' 0 []]"
  let ?docs = "[projections (sample_show ''tt1'' ''Alpha'' 2 [''drama''])]"
  have q: "qualifying ?xs = [sample_show ''tt1'' ''Alpha'' 2 [''drama'']]"
    by (simp add: qualifying_def sample_show_def)
  have g: "getPage 50 (Collection [sample_show ''tt1'' ''Alpha'' 2 [''drama'']])
             (sample_request ''1'') = Json ?docs"
    by code_simp
  have n: "sample_show ''tt2'' ''Beta'' 0 [] \<in> set ?xs
             \<and> num_seasons (sample_show ''tt2'' ''Beta'' 0 []) \<le> 0"
    by (simp add: sample_show_def)
  from num_seasons_invariant [of ?xs 50 "sample_request ''1''" ?docs
      "sample_show ''tt2'' ''Beta'' 0 []"]
  have i: "getPage 50 (Collection ?xs) (sample_request ''1'')
             = getPage 50 (Collection (qualifying ?xs)) (sample_request ''1'')"
    and d: "getPage 50 (Collection ?xs) (sample_request ''1'') = Json ?docs \<longrightarrow>
              list_all (\<lambda>d. 0 < num_seasons d) ?docs"
    and r: "sample_show ''tt2'' ''Beta'' 0 [] \<in> set ?xs
              \<and> num_seasons (sample_show ''tt2'' ''Beta'' 0 []) \<le> 0 \<longrightarrow>
            (\<exists>r. getRandomShow (Collection ?xs) r = Json (Some (sample_show ''tt2'' ''Beta'' 0 [])))"
    by blast+
  from i q g have p: "getPage 50 (Collection ?xs) (sample_request ''1'') = Json ?docs"
    by simp
  with d have "list_all (\<lambda>d. 0 < num_seasons d) ?docs" by blast
  with p n r show ?thesis by blast
qed

end
